theory Spec2Isabelle
  imports Complex_Main
begin

section \<open>Span decoding and span-level scoring of run\_ner.py\<close>

text \<open>
  The embedding covers \<open>find_all_tags\<close>, \<open>precision\<close>, \<open>recall\<close> and
  \<open>compute_f1\<close>. A tag sequence and a mask are integer arrays (\<open>compute_f1\<close> casts
  all three tensors to \<open>int32\<close> arrays before anything else looks at them; on integer
  entries that fit in 32 bits the cast changes nothing, and the model starts from there).
  Positions and counters only grow from 0, so they are \<open>nat\<close>. The scores are Python
  floats; the model computes them as exact rationals.
\<close>

subsection \<open>Errors and data\<close>

datatype error =
    IndexError            \<comment> \<open>an array read at a position at or past its end\<close>
  | ShapeMismatch         \<comment> \<open>comparison of two slices whose shapes do not broadcast\<close>
  | ZeroDivisionError

type_synonym span = "nat \<times> nat"

text \<open>
  The dictionary \<open>tags\<close> has the three literal keys \<open>"per"\<close>, \<open>"loc"\<close>, \<open>"org"\<close>
  from its creation to its return; it is a record with these fields, in the order of the
  dictionary literal (the order in which \<open>for tag_name in result\<close> visits them).
\<close>

record tags =
  per :: "span list"
  loc :: "span list"
  org :: "span list"

definition empty_tags :: tags where
  "empty_tags = \<lparr>per = [], loc = [], org = []\<rparr>"

subsection \<open>The span extractor\<close>

text \<open>
  The inner loop \<open>while predictions[seek] == itag: length += 1; seek += 1\<close>. The
  source has three copies of it, for the Inside tags 1, 3 and 5; \<open>itag\<close> is the tag
  compared, and the counter \<open>length\<close> of the source is \<open>len\<close> here. The read
  \<open>predictions[seek]\<close> is not guarded by the array bound in the source: at
  \<open>seek = len(predictions)\<close> it raises. The value returned is the final \<open>length\<close>.
\<close>

function seek_loop :: "int list \<Rightarrow> int \<Rightarrow> nat \<Rightarrow> nat \<Rightarrow> error + nat" where
  "seek_loop predictions itag seek len =
     (if seek < length predictions then
        (if predictions ! seek = itag
         then seek_loop predictions itag (seek + 1) (len + 1)
         else Inr len)
      else Inl IndexError)"
  by pat_completeness auto
termination
  by (relation "measure (\<lambda>(predictions, itag, seek, len). length predictions - seek)") auto

declare seek_loop.simps [simp del]

text \<open>
  The outer loop \<open>while idx < len(predictions)\<close>, with the dictionary as accumulator.
  \<open>dev_mask[idx]\<close> is read first (it raises when the mask is shorter than the tag
  sequence), then \<open>predictions[idx]\<close>, which is in range by the loop condition. A span
  is appended as \<open>(idx, length)\<close> with the \<open>idx\<close> at which its Begin tag was found,
  and the cursor moves on by \<open>length + 1\<close>.
\<close>

function find_loop :: "int list \<Rightarrow> int list \<Rightarrow> nat \<Rightarrow> tags \<Rightarrow> error + tags" where
  "find_loop predictions dev_mask idx tags =
     (if idx < length predictions then
        (if idx < length dev_mask then
           (if dev_mask ! idx = 0 \<or> predictions ! idx = 6 then
              find_loop predictions dev_mask (idx + 1) tags
            else if predictions ! idx = 0 then
              (case seek_loop predictions 1 (idx + 1) 0 of
                 Inl e \<Rightarrow> Inl e
               | Inr len \<Rightarrow>
                   find_loop predictions dev_mask (idx + (len + 1))
                     (tags\<lparr>per := per tags @ [(idx, len)]\<rparr>))
            else if predictions ! idx = 2 then
              (case seek_loop predictions 3 (idx + 1) 0 of
                 Inl e \<Rightarrow> Inl e
               | Inr len \<Rightarrow>
                   find_loop predictions dev_mask (idx + (len + 1))
                     (tags\<lparr>org := org tags @ [(idx, len)]\<rparr>))
            else if predictions ! idx = 4 then
              (case seek_loop predictions 5 (idx + 1) 0 of
                 Inl e \<Rightarrow> Inl e
               | Inr len \<Rightarrow>
                   find_loop predictions dev_mask (idx + (len + 1))
                     (tags\<lparr>loc := loc tags @ [(idx, len)]\<rparr>))
            else find_loop predictions dev_mask (idx + 1) tags)
         else Inl IndexError)
      else Inr tags)"
  by pat_completeness auto
termination
  by (relation "measure (\<lambda>(predictions, dev_mask, idx, tags). length predictions - idx)") auto

declare find_loop.simps [simp del]

definition find_all_tags :: "int list \<Rightarrow> int list \<Rightarrow> error + tags" where
  "find_all_tags predictions dev_mask = find_loop predictions dev_mask 0 empty_tags"

subsection \<open>Scoring\<close>

text \<open>The slice \<open>xs[a:b]\<close> for \<open>0 \<le> a\<close>: clipped to the array, never an error.\<close>

definition slice :: "int list \<Rightarrow> nat \<Rightarrow> nat \<Rightarrow> int list" where
  "slice xs a b = take (b - a) (drop a xs)"

text \<open>
  \<open>(xs == ys).all()\<close> on two one-dimensional arrays: element-wise on equal shapes, a
  one-element array is broadcast against the other, any other pair of shapes is an
  error.
\<close>

definition all_equal :: "int list \<Rightarrow> int list \<Rightarrow> error + bool" where
  "all_equal xs ys =
     (if length xs = length ys then Inr (list_all2 (=) xs ys)
      else if length xs = 1 then Inr (list_all (\<lambda>y. hd xs = y) ys)
      else if length ys = 1 then Inr (list_all (\<lambda>x. x = hd ys) xs)
      else Inl ShapeMismatch)"

text \<open>
  The test of lines 81 and 95 (the same expression in \<open>precision\<close> and \<open>recall\<close>):
  \<open>(predictions[res[0]:res[0] + res[1] + 1] == dev_labels[res[0]:res[0] + res[1] + 1]).all()\<close>.
\<close>

definition span_test :: "int list \<Rightarrow> int list \<Rightarrow> span \<Rightarrow> error + bool" where
  "span_test predictions dev_labels res =
     all_equal (slice predictions (fst res) (fst res + snd res + 1))
               (slice dev_labels (fst res) (fst res + snd res + 1))"

text \<open>The loop \<open>for res in result[tag_name]\<close>, appending 1 or 0 to the score list.\<close>

fun score_spans :: "int list \<Rightarrow> int list \<Rightarrow> span list \<Rightarrow> int list \<Rightarrow> error + int list" where
  "score_spans predictions dev_labels [] acc = Inr acc"
| "score_spans predictions dev_labels (res # rest) acc =
     (case span_test predictions dev_labels res of
        Inl e \<Rightarrow> Inl e
      | Inr b \<Rightarrow> score_spans predictions dev_labels rest (acc @ [if b then 1 else 0]))"

text \<open>The loop \<open>for tag_name in result\<close> over the values of the dictionary.\<close>

fun score_tags :: "int list \<Rightarrow> int list \<Rightarrow> span list list \<Rightarrow> int list \<Rightarrow> error + int list" where
  "score_tags predictions dev_labels [] acc = Inr acc"
| "score_tags predictions dev_labels (spans # rest) acc =
     (case score_spans predictions dev_labels spans acc of
        Inl e \<Rightarrow> Inl e
      | Inr acc' \<Rightarrow> score_tags predictions dev_labels rest acc')"

definition tag_values :: "tags \<Rightarrow> span list list" where
  "tag_values result = [per result, loc result, org result]"

text \<open>Python's \<open>a / b\<close> on integers.\<close>

definition truediv :: "int \<Rightarrow> int \<Rightarrow> error + rat" where
  "truediv a b = (if b = 0 then Inl ZeroDivisionError else Inr (of_int a / of_int b))"

text \<open>The tail shared by \<open>precision\<close> and \<open>recall\<close>: the empty check, then the mean.\<close>

definition mean_or_zero :: "int list \<Rightarrow> error + rat" where
  "mean_or_zero xs =
     (if length xs = 0 then Inr 0 else truediv (sum_list xs) (int (length xs)))"

definition precision :: "int list \<Rightarrow> int list \<Rightarrow> int list \<Rightarrow> error + rat" where
  "precision predictions dev_labels dev_mask =
     (case find_all_tags predictions dev_mask of
        Inl e \<Rightarrow> Inl e
      | Inr result \<Rightarrow>
          (case score_tags predictions dev_labels (tag_values result) [] of
             Inl e \<Rightarrow> Inl e
           | Inr pre \<Rightarrow> mean_or_zero pre))"

definition recall :: "int list \<Rightarrow> int list \<Rightarrow> int list \<Rightarrow> error + rat" where
  "recall predictions dev_labels dev_mask =
     (case find_all_tags dev_labels dev_mask of
        Inl e \<Rightarrow> Inl e
      | Inr result \<Rightarrow>
          (case score_tags predictions dev_labels (tag_values result) [] of
             Inl e \<Rightarrow> Inl e
           | Inr rec \<Rightarrow> mean_or_zero rec))"

text \<open>Python's \<open>a / b\<close> on the two scores.\<close>

definition fdiv :: "rat \<Rightarrow> rat \<Rightarrow> error + rat" where
  "fdiv a b = (if b = 0 then Inl ZeroDivisionError else Inr (a / b))"

definition compute_f1 :: "int list \<Rightarrow> int list \<Rightarrow> int list \<Rightarrow> error + rat" where
  "compute_f1 predictions dev_labels dev_mask =
     (case precision predictions dev_labels dev_mask of
        Inl e \<Rightarrow> Inl e
      | Inr p \<Rightarrow>
          (case recall predictions dev_labels dev_mask of
             Inl e \<Rightarrow> Inl e
           | Inr r \<Rightarrow> if p = 0 \<and> r = 0 then Inr 0 else fdiv (2 * p * r) (p + r)))"

text \<open>All spans of a collection, in the order the scoring loops visit them.\<close>

definition all_spans :: "tags \<Rightarrow> span list" where
  "all_spans result = concat (tag_values result)"

subsection \<open>Notions the properties are stated with\<close>

text \<open>
  The length of the maximal run of \<open>itag\<close> that begins at position \<open>start + 1\<close>;
  the run ends at the first other tag or at the end of the sequence.
\<close>

definition inside_run :: "int list \<Rightarrow> int \<Rightarrow> nat \<Rightarrow> nat" where
  "inside_run T itag start = length (takeWhile (\<lambda>t. t = itag) (drop (start + 1) T))"

text \<open>
  What the outer loop has seen when it appends a span \<open>x\<close> at or after \<open>idx\<close>: an
  unmasked position holding the Begin tag \<open>btag\<close>, and a lookahead for \<open>itag\<close> that
  returned the span's second component.
\<close>

definition emitted :: "int list \<Rightarrow> int list \<Rightarrow> int \<Rightarrow> int \<Rightarrow> nat \<Rightarrow> span \<Rightarrow> bool" where
  "emitted T M btag itag idx x \<longleftrightarrow>
     idx \<le> fst x \<and> fst x < length T \<and> fst x < length M \<and> M ! fst x \<noteq> 0 \<and>
     T ! fst x = btag \<and> seek_loop T itag (fst x + 1) 0 = Inr (snd x)"

text \<open>Element-wise identity of the two slices over the extent of a span.\<close>

definition slices_identical :: "int list \<Rightarrow> int list \<Rightarrow> span \<Rightarrow> bool" where
  "slices_identical P G x \<longleftrightarrow>
     slice P (fst x) (fst x + snd x + 1) = slice G (fst x) (fst x + snd x + 1)"

section \<open>The lookahead\<close>

lemma seek_loop_takeWhile:
  "seek_loop T itag seek len = Inr r \<Longrightarrow>
     r = len + length (takeWhile (\<lambda>t. t = itag) (drop seek T)) \<and>
     seek + length (takeWhile (\<lambda>t. t = itag) (drop seek T)) < length T"
proof (induction T itag seek len rule: seek_loop.induct)
  case (1 T itag seek len)
  show ?case
  proof (cases "seek < length T")
    case False
    with "1.prems" show ?thesis by (simp add: seek_loop.simps)
  next
    case True
    then have d: "drop seek T = T ! seek # drop (Suc seek) T"
      by (simp add: Cons_nth_drop_Suc)
    show ?thesis
    proof (cases "T ! seek = itag")
      case True
      with \<open>seek < length T\<close> "1.prems"
      have "seek_loop T itag (seek + 1) (len + 1) = Inr r"
        by (simp add: seek_loop.simps [of T itag seek len])
      from "1.IH" [OF \<open>seek < length T\<close> True this] True d show ?thesis by simp
    next
      case False
      with \<open>seek < length T\<close> "1.prems" d show ?thesis
        by (simp add: seek_loop.simps [of T itag seek len])
    qed
  qed
qed

lemma emitted_mono: "emitted T M b i idx' x \<Longrightarrow> idx \<le> idx' \<Longrightarrow> emitted T M b i idx x"
  by (simp add: emitted_def)

lemma find_loop_Inr_induct [consumes 1, case_names stop skip per org loc]:
  assumes run: "find_loop T M idx tags = Inr S"
    and stop: "\<And>idx tags. \<not> idx < length T \<Longrightarrow> P idx tags tags"
    and skip: "\<And>idx tags S. idx < length T \<Longrightarrow> idx < length M \<Longrightarrow>
        M ! idx = 0 \<or> T ! idx \<notin> {0, 2, 4} \<Longrightarrow>
        find_loop T M (idx + 1) tags = Inr S \<Longrightarrow> P (idx + 1) tags S \<Longrightarrow> P idx tags S"
    and per: "\<And>idx tags len S. idx < length T \<Longrightarrow> idx < length M \<Longrightarrow>
        M ! idx \<noteq> 0 \<Longrightarrow> T ! idx = 0 \<Longrightarrow> seek_loop T 1 (idx + 1) 0 = Inr len \<Longrightarrow>
        find_loop T M (idx + (len + 1)) (tags\<lparr>per := per tags @ [(idx, len)]\<rparr>) = Inr S \<Longrightarrow>
        P (idx + (len + 1)) (tags\<lparr>per := per tags @ [(idx, len)]\<rparr>) S \<Longrightarrow> P idx tags S"
    and org: "\<And>idx tags len S. idx < length T \<Longrightarrow> idx < length M \<Longrightarrow>
        M ! idx \<noteq> 0 \<Longrightarrow> T ! idx = 2 \<Longrightarrow> seek_loop T 3 (idx + 1) 0 = Inr len \<Longrightarrow>
        find_loop T M (idx + (len + 1)) (tags\<lparr>org := org tags @ [(idx, len)]\<rparr>) = Inr S \<Longrightarrow>
        P (idx + (len + 1)) (tags\<lparr>org := org tags @ [(idx, len)]\<rparr>) S \<Longrightarrow> P idx tags S"
    and loc: "\<And>idx tags len S. idx < length T \<Longrightarrow> idx < length M \<Longrightarrow>
        M ! idx \<noteq> 0 \<Longrightarrow> T ! idx = 4 \<Longrightarrow> seek_loop T 5 (idx + 1) 0 = Inr len \<Longrightarrow>
        find_loop T M (idx + (len + 1)) (tags\<lparr>loc := loc tags @ [(idx, len)]\<rparr>) = Inr S \<Longrightarrow>
        P (idx + (len + 1)) (tags\<lparr>loc := loc tags @ [(idx, len)]\<rparr>) S \<Longrightarrow> P idx tags S"
  shows "P idx tags S"
  using run
proof (induction "length T - idx" arbitrary: idx tags rule: less_induct)
  case less
  note eq = less.prems [unfolded find_loop.simps [of T M idx tags]]
  show ?case
  proof (cases "idx < length T")
    case False
    with eq have "S = tags" by simp
    with False stop show ?thesis by simp
  next
    case inT: True
    show ?thesis
    proof (cases "idx < length M")
      case False
      with inT eq show ?thesis by simp
    next
      case inM: True
      consider (s) "M ! idx = 0 \<or> T ! idx \<notin> {0, 2, 4}"
        | (p) "M ! idx \<noteq> 0" "T ! idx = 0"
        | (o) "M ! idx \<noteq> 0" "T ! idx = 2"
        | (l) "M ! idx \<noteq> 0" "T ! idx = 4"
        by auto
      then show ?thesis
      proof cases
        case s
        with inT inM eq have r: "find_loop T M (idx + 1) tags = Inr S"
          by (auto split: if_splits)
        from inT have "length T - (idx + 1) < length T - idx" by simp
        from skip [OF inT inM s r less.hyps [OF this r]] show ?thesis .
      next
        case p
        with inT inM eq obtain len where
          sk: "seek_loop T 1 (idx + 1) 0 = Inr len" and
          r: "find_loop T M (idx + (len + 1)) (tags\<lparr>per := per tags @ [(idx, len)]\<rparr>) = Inr S"
          by (auto split: sum.splits)
        from inT have "length T - (idx + (len + 1)) < length T - idx" by simp
        from per [OF inT inM p sk r less.hyps [OF this r]] show ?thesis .
      next
        case o
        with inT inM eq obtain len where
          sk: "seek_loop T 3 (idx + 1) 0 = Inr len" and
          r: "find_loop T M (idx + (len + 1)) (tags\<lparr>org := org tags @ [(idx, len)]\<rparr>) = Inr S"
          by (auto split: sum.splits)
        from inT have "length T - (idx + (len + 1)) < length T - idx" by simp
        from org [OF inT inM o sk r less.hyps [OF this r]] show ?thesis .
      next
        case l
        with inT inM eq obtain len where
          sk: "seek_loop T 5 (idx + 1) 0 = Inr len" and
          r: "find_loop T M (idx + (len + 1)) (tags\<lparr>loc := loc tags @ [(idx, len)]\<rparr>) = Inr S"
          by (auto split: sum.splits)
        from inT have "length T - (idx + (len + 1)) < length T - idx" by simp
        from loc [OF inT inM l sk r less.hyps [OF this r]] show ?thesis .
      qed
    qed
  qed
qed

section \<open>The scan\<close>

text \<open>
  Rule induction over the successful runs of the outer loop: one case for the exit, one
  for every position the loop steps over (masked, \<open>O\<close>, or an Inside tag without its
  Begin tag), one for each Begin tag.
\<close>

lemma find_loop_spans:
  "find_loop T M idx tags = Inr S \<Longrightarrow>
     (\<forall>x\<in>set (per S). x \<in> set (per tags) \<or> emitted T M 0 1 idx x) \<and>
     (\<forall>x\<in>set (org S). x \<in> set (org tags) \<or> emitted T M 2 3 idx x) \<and>
     (\<forall>x\<in>set (loc S). x \<in> set (loc tags) \<or> emitted T M 4 5 idx x)"
proof (induction rule: find_loop_Inr_induct)
  case (stop idx tags)
  show ?case by simp
next
  case (skip idx tags S)
  from skip.IH show ?case by (auto simp: emitted_def)
next
  case (per idx tags len S)
  from per.IH per.hyps(1-5) show ?case by (auto simp: emitted_def)
next
  case (org idx tags len S)
  from org.IH org.hyps(1-5) show ?case by (auto simp: emitted_def)
next
  case (loc idx tags len S)
  from loc.IH loc.hyps(1-5) show ?case by (auto simp: emitted_def)
qed

lemma find_loop_grows:
  "find_loop T M idx tags = Inr S \<Longrightarrow>
     set (per tags) \<subseteq> set (per S) \<and> set (org tags) \<subseteq> set (org S) \<and> set (loc tags) \<subseteq> set (loc S)"
  by (induction rule: find_loop_Inr_induct) auto

lemma find_all_tags_spans:
  assumes "find_all_tags T M = Inr S"
  shows "\<forall>x\<in>set (per S). emitted T M 0 1 0 x"
    and "\<forall>x\<in>set (org S). emitted T M 2 3 0 x"
    and "\<forall>x\<in>set (loc S). emitted T M 4 5 0 x"
  using find_loop_spans [of T M 0 empty_tags S] assms
  by (simp_all add: find_all_tags_def empty_tags_def)

lemma emitted_run:
  assumes "emitted T M btag itag idx x"
  shows "T ! fst x = btag \<and> snd x = inside_run T itag (fst x) \<and> fst x + snd x < length T"
proof -
  from assms have "seek_loop T itag (fst x + 1) 0 = Inr (snd x)" and "T ! fst x = btag"
    by (simp_all add: emitted_def)
  from seek_loop_takeWhile [OF this(1)] this(2) show ?thesis
    by (simp add: inside_run_def)
qed

lemma set_all_spans: "set (all_spans S) = set (per S) \<union> set (loc S) \<union> set (org S)"
  by (auto simp: all_spans_def tag_values_def)

lemma all_spans_snoc:
  "set (all_spans (tags\<lparr>per := per tags @ [x]\<rparr>)) = insert x (set (all_spans tags))"
  "set (all_spans (tags\<lparr>org := org tags @ [x]\<rparr>)) = insert x (set (all_spans tags))"
  "set (all_spans (tags\<lparr>loc := loc tags @ [x]\<rparr>)) = insert x (set (all_spans tags))"
  by (auto simp: set_all_spans)

lemma find_loop_all_spans:
  assumes "find_loop T M idx tags = Inr S" and "x \<in> set (all_spans S)"
  shows "x \<in> set (all_spans tags) \<or> idx \<le> fst x"
  using find_loop_spans [OF assms(1)] assms(2)
  by (auto simp: set_all_spans emitted_def)

lemma no_span_around:
  assumes "find_loop T M j tags = Inr S" and "idx \<le> j"
    and "\<forall>x\<in>set (all_spans tags). fst x + snd x < idx \<or> idx \<le> fst x"
  shows "\<forall>x\<in>set (all_spans S). \<not> (fst x < idx \<and> idx \<le> fst x + snd x)"
proof
  fix x assume "x \<in> set (all_spans S)"
  from find_loop_all_spans [OF assms(1) this] have "x \<in> set (all_spans tags) \<or> j \<le> fst x" .
  then show "\<not> (fst x < idx \<and> idx \<le> fst x + snd x)"
  proof
    assume "x \<in> set (all_spans tags)"
    with assms(3) have "fst x + snd x < idx \<or> idx \<le> fst x" by blast
    then show ?thesis by arith
  next
    assume "j \<le> fst x"
    with assms(2) show ?thesis by arith
  qed
qed

lemma find_loop_mask_indep:
  assumes run: "find_loop T M idx tags = Inr S"
    and len: "length M' = length M"
    and old: "\<forall>x\<in>set (all_spans tags). fst x + snd x < idx"
    and dis: "\<forall>i. idx \<le> i \<and> i < length T \<and> M ! i \<noteq> M' ! i \<longrightarrow>
               (\<exists>x\<in>set (all_spans S). fst x < i \<and> i \<le> fst x + snd x)"
  shows "find_loop T M' idx tags = Inr S"
  using run old dis
proof (induction rule: find_loop_Inr_induct)
  case (stop idx tags)
  then show ?case by (simp add: find_loop.simps [of T M' idx tags])
next
  case (skip idx tags S)
  from skip.prems(1) have "\<forall>x\<in>set (all_spans tags). fst x + snd x < idx \<or> idx \<le> fst x"
    by simp
  from no_span_around [OF skip.hyps(4) _ this] skip.prems(2) skip.hyps(1)
  have same: "M ! idx = M' ! idx" by auto
  have "find_loop T M' (idx + 1) tags = Inr S"
  proof (rule skip.IH)
    from skip.prems(1) show "\<forall>x\<in>set (all_spans tags). fst x + snd x < idx + 1" by auto
    from skip.prems(2) show "\<forall>i. idx + 1 \<le> i \<and> i < length T \<and> M ! i \<noteq> M' ! i \<longrightarrow>
               (\<exists>x\<in>set (all_spans S). fst x < i \<and> i \<le> fst x + snd x)" by auto
  qed
  moreover from skip.hyps(1-3) same len
  have "find_loop T M' idx tags = find_loop T M' (idx + 1) tags"
    by (auto simp: find_loop.simps [of T M' idx tags])
  ultimately show ?case by simp
next
  case (per idx tags len S)
  let ?tags = "tags\<lparr>per := per tags @ [(idx, len)]\<rparr>"
  from per.prems(1) have "\<forall>x\<in>set (all_spans ?tags). fst x + snd x < idx \<or> idx \<le> fst x"
    by (auto simp: all_spans_snoc)
  from no_span_around [OF per.hyps(6) _ this] per.prems(2) per.hyps(1)
  have same: "M ! idx = M' ! idx" by auto
  have "find_loop T M' (idx + (len + 1)) ?tags = Inr S"
  proof (rule per.IH)
    from per.prems(1) show "\<forall>x\<in>set (all_spans ?tags). fst x + snd x < idx + (len + 1)"
      by (auto simp: all_spans_snoc)
    from per.prems(2) show "\<forall>i. idx + (len + 1) \<le> i \<and> i < length T \<and> M ! i \<noteq> M' ! i \<longrightarrow>
               (\<exists>x\<in>set (all_spans S). fst x < i \<and> i \<le> fst x + snd x)" by auto
  qed
  moreover from per.hyps(1-5) same len
  have "find_loop T M' idx tags = find_loop T M' (idx + (len + 1)) ?tags"
    by (simp add: find_loop.simps [of T M' idx tags])
  ultimately show ?case by simp
next
  case (org idx tags len S)
  let ?tags = "tags\<lparr>org := org tags @ [(idx, len)]\<rparr>"
  from org.prems(1) have "\<forall>x\<in>set (all_spans ?tags). fst x + snd x < idx \<or> idx \<le> fst x"
    by (auto simp: all_spans_snoc)
  from no_span_around [OF org.hyps(6) _ this] org.prems(2) org.hyps(1)
  have same: "M ! idx = M' ! idx" by auto
  have "find_loop T M' (idx + (len + 1)) ?tags = Inr S"
  proof (rule org.IH)
    from org.prems(1) show "\<forall>x\<in>set (all_spans ?tags). fst x + snd x < idx + (len + 1)"
      by (auto simp: all_spans_snoc)
    from org.prems(2) show "\<forall>i. idx + (len + 1) \<le> i \<and> i < length T \<and> M ! i \<noteq> M' ! i \<longrightarrow>
               (\<exists>x\<in>set (all_spans S). fst x < i \<and> i \<le> fst x + snd x)" by auto
  qed
  moreover from org.hyps(1-5) same len
  have "find_loop T M' idx tags = find_loop T M' (idx + (len + 1)) ?tags"
    by (simp add: find_loop.simps [of T M' idx tags])
  ultimately show ?case by simp
next
  case (loc idx tags len S)
  let ?tags = "tags\<lparr>loc := loc tags @ [(idx, len)]\<rparr>"
  from loc.prems(1) have "\<forall>x\<in>set (all_spans ?tags). fst x + snd x < idx \<or> idx \<le> fst x"
    by (auto simp: all_spans_snoc)
  from no_span_around [OF loc.hyps(6) _ this] loc.prems(2) loc.hyps(1)
  have same: "M ! idx = M' ! idx" by auto
  have "find_loop T M' (idx + (len + 1)) ?tags = Inr S"
  proof (rule loc.IH)
    from loc.prems(1) show "\<forall>x\<in>set (all_spans ?tags). fst x + snd x < idx + (len + 1)"
      by (auto simp: all_spans_snoc)
    from loc.prems(2) show "\<forall>i. idx + (len + 1) \<le> i \<and> i < length T \<and> M ! i \<noteq> M' ! i \<longrightarrow>
               (\<exists>x\<in>set (all_spans S). fst x < i \<and> i \<le> fst x + snd x)" by auto
  qed
  moreover from loc.hyps(1-5) same len
  have "find_loop T M' idx tags = find_loop T M' (idx + (len + 1)) ?tags"
    by (simp add: find_loop.simps [of T M' idx tags])
  ultimately show ?case by simp
qed

lemma find_loop_nonempty:
  assumes "find_loop T M idx tags = Inr S"
    and "all_spans tags \<noteq> [] \<or>
         (\<exists>k. idx \<le> k \<and> k < length T \<and> M ! k \<noteq> 0 \<and> T ! k \<in> {0, 2, 4})"
  shows "all_spans S \<noteq> []"
  using assms
proof (induction rule: find_loop_Inr_induct)
  case (stop idx tags)
  then show ?case by auto
next
  case (skip idx tags S)
  show ?case
  proof (rule skip.IH)
    from skip.prems show "all_spans tags \<noteq> [] \<or>
         (\<exists>k. idx + 1 \<le> k \<and> k < length T \<and> M ! k \<noteq> 0 \<and> T ! k \<in> {0, 2, 4})"
    proof
      assume "all_spans tags \<noteq> []"
      then show ?thesis ..
    next
      assume "\<exists>k. idx \<le> k \<and> k < length T \<and> M ! k \<noteq> 0 \<and> T ! k \<in> {0, 2, 4}"
      then obtain k where k: "idx \<le> k" "k < length T" "M ! k \<noteq> 0" "T ! k \<in> {0, 2, 4}"
        by blast
      with skip.hyps(3) have "k \<noteq> idx" by auto
      with k(1) have "idx + 1 \<le> k" by simp
      with k show ?thesis by blast
    qed
  qed
next
  case (per idx tags len S)
  have "set (all_spans (tags\<lparr>per := per tags @ [(idx, len)]\<rparr>)) \<noteq> {}"
    by (simp add: all_spans_snoc)
  then have "all_spans (tags\<lparr>per := per tags @ [(idx, len)]\<rparr>) \<noteq> []" by auto
  then show ?case by (intro per.IH disjI1)
next
  case (org idx tags len S)
  have "set (all_spans (tags\<lparr>org := org tags @ [(idx, len)]\<rparr>)) \<noteq> {}"
    by (simp add: all_spans_snoc)
  then have "all_spans (tags\<lparr>org := org tags @ [(idx, len)]\<rparr>) \<noteq> []" by auto
  then show ?case by (intro org.IH disjI1)
next
  case (loc idx tags len S)
  have "set (all_spans (tags\<lparr>loc := loc tags @ [(idx, len)]\<rparr>)) \<noteq> {}"
    by (simp add: all_spans_snoc)
  then have "all_spans (tags\<lparr>loc := loc tags @ [(idx, len)]\<rparr>) \<noteq> []" by auto
  then show ?case by (intro loc.IH disjI1)
qed

lemma find_all_tags_begin:
  assumes "find_all_tags T M = Inr S" and "x \<in> set (all_spans S)"
  shows "fst x < length T \<and> M ! fst x \<noteq> 0 \<and> T ! fst x \<in> {0, 2, 4}"
  using find_all_tags_spans [OF assms(1)] assms(2)
  by (auto simp: set_all_spans emitted_def)

lemma spans_carry_over:
  assumes "find_all_tags T M = Inr S" and "find_all_tags T' M = Inr S'"
    and "length T = length T'"
    and "\<forall>i<length T. M ! i \<noteq> 0 \<longrightarrow> T ! i = T' ! i"
    and "all_spans S \<noteq> []"
  shows "all_spans S' \<noteq> []"
proof -
  from assms(5) obtain x where "x \<in> set (all_spans S)" by (cases "all_spans S") auto
  from find_all_tags_begin [OF assms(1) this]
  have k: "fst x < length T" "M ! fst x \<noteq> 0" "T ! fst x \<in> {0, 2, 4}" by simp_all
  with assms(4) have "T' ! fst x \<in> {0, 2, 4}" by auto
  with k(1,2) assms(3)
  have "\<exists>k. 0 \<le> k \<and> k < length T' \<and> M ! k \<noteq> 0 \<and> T' ! k \<in> {0, 2, 4}" by auto
  with assms(2) show ?thesis
    unfolding find_all_tags_def by (intro find_loop_nonempty [of T' M 0 empty_tags S']) simp_all
qed

section \<open>The scoring loops\<close>

lemma length_slice: "length P = length G \<Longrightarrow> length (slice P a b) = length (slice G a b)"
  by (simp add: slice_def)

lemma all_equal_same_length:
  "length xs = length ys \<Longrightarrow> all_equal xs ys = Inr (xs = ys)"
  by (simp add: all_equal_def list_eq_iff_nth_eq list_all2_conv_all_nth)

lemma span_test_eq:
  "length P = length G \<Longrightarrow> span_test P G x = Inr (slices_identical P G x)"
  unfolding span_test_def slices_identical_def
  by (rule all_equal_same_length) (rule length_slice)

lemma score_spans_eq:
  "length P = length G \<Longrightarrow>
     score_spans P G xs acc = Inr (acc @ map (\<lambda>x. if slices_identical P G x then 1 else 0) xs)"
  by (induction xs arbitrary: acc) (simp_all add: span_test_eq)

lemma score_tags_eq:
  "length P = length G \<Longrightarrow>
     score_tags P G xss acc =
       Inr (acc @ map (\<lambda>x. if slices_identical P G x then 1 else 0) (concat xss))"
  by (induction xss arbitrary: acc) (simp_all add: score_spans_eq)

lemma sum_list_indicator:
  "sum_list (map (\<lambda>x. if Q x then 1 else 0) xs) = int (length (filter Q xs))"
  by (induction xs) simp_all

lemma mean_or_zero_indicator:
  "mean_or_zero (map (\<lambda>x. if Q x then 1 else 0) xs) =
     Inr (if xs = [] then 0 else of_nat (length (filter Q xs)) / of_nat (length xs))"
  by (simp add: mean_or_zero_def truediv_def sum_list_indicator)

lemma scored_ratio:
  assumes "length P = length G"
  shows "(case score_tags P G (tag_values S) [] of Inl e \<Rightarrow> Inl e | Inr pre \<Rightarrow> mean_or_zero pre) =
     Inr (if all_spans S = [] then 0
          else of_nat (length (filter (slices_identical P G) (all_spans S))) /
               of_nat (length (all_spans S)))"
  by (simp add: score_tags_eq [OF assms] mean_or_zero_indicator all_spans_def del: concat.simps)










lemma scored_ratio_one:
  assumes "length P = length G" and "all_spans S \<noteq> []"
    and "\<forall>x\<in>set (all_spans S). slices_identical P G x"
  shows "(case score_tags P G (tag_values S) [] of Inl e \<Rightarrow> Inl e | Inr pre \<Rightarrow> mean_or_zero pre) = Inr 1"
proof -
  from assms(3) have "filter (slices_identical P G) (all_spans S) = all_spans S"
    by simp
  with scored_ratio [OF assms(1), of S] assms(2) show ?thesis by simp
qed

section \<open>Properties of the span extractor\<close>

text \<open>
  C5. On the tag sequence \<open>[0, 1, 6, 2, 6]\<close> with the mask \<open>[1, 1, 1, 1, 1]\<close> the
  extractor returns one person span \<open>(0, 1)\<close>, one organization span \<open>(3, 0)\<close> and no
  location span.
\<close>

theorem find_all_tags_scenario:
  "find_all_tags [0, 1, 6, 2, 6] [1, 1, 1, 1, 1] =
     Inr \<lparr>per = [(0, 1)], loc = [], org = [(3, 0)]\<rparr>"
  by code_simp

text \<open>
  C4 (the extractor never faults, a Begin tag at the final position gives a span of
  continuation length 0) does not hold of the source. The lookahead that follows a Begin
  tag reads \<open>predictions[seek]\<close> without comparing \<open>seek\<close> with the length, unlike
  the outer loop, which bounds \<open>idx\<close>. On the one-element sequence \<open>[0]\<close> with mask
  \<open>[1]\<close> the first lookahead read falls past the end and the \<open>IndexError\<close> leaves
  \<open>find_all_tags\<close>.
\<close>

theorem find_all_tags_begin_at_end_faults:
  "find_all_tags [0] [1] = Inl IndexError"
  by code_simp

text \<open>
  C6. Every span the extractor returns starts at the Begin tag of its category, and its
  continuation length is the length of the maximal run of the matching Inside tag that
  begins right after the start; all positions counted lie inside the sequence.
\<close>

theorem find_all_tags_continuation_length:
  assumes "find_all_tags T M = Inr S"
  shows "(\<forall>(s, l)\<in>set (per S). T ! s = 0 \<and> l = inside_run T 1 s \<and> s + l < length T) \<and>
         (\<forall>(s, l)\<in>set (org S). T ! s = 2 \<and> l = inside_run T 3 s \<and> s + l < length T) \<and>
         (\<forall>(s, l)\<in>set (loc S). T ! s = 4 \<and> l = inside_run T 5 s \<and> s + l < length T)"
proof -
  note sp = find_all_tags_spans [OF assms]
  have p: "T ! s = 0 \<and> l = inside_run T 1 s \<and> s + l < length T"
    if "(s, l) \<in> set (per S)" for s l
    using emitted_run [OF bspec [OF sp(1) that]] by simp
  have o: "T ! s = 2 \<and> l = inside_run T 3 s \<and> s + l < length T"
    if "(s, l) \<in> set (org S)" for s l
    using emitted_run [OF bspec [OF sp(2) that]] by simp
  have l: "T ! s = 4 \<and> l = inside_run T 5 s \<and> s + l < length T"
    if "(s, l) \<in> set (loc S)" for s l
    using emitted_run [OF bspec [OF sp(3) that]] by simp
  from p o l show ?thesis by blast
qed

theorem find_all_tags_continuation_length_witness:
  "find_all_tags [0, 1, 1, 6, 4, 5, 2, 6] [1, 1, 0, 1, 1, 1, 1, 1] =
     Inr \<lparr>per = [(0, 2)], loc = [(4, 1)], org = [(6, 0)]\<rparr> \<and>
   inside_run [0, 1, 1, 6, 4, 5, 2, 6] 1 0 = 2 \<and>
   inside_run [0, 1, 1, 6, 4, 5, 2, 6] 5 4 = 1 \<and>
   inside_run [0, 1, 1, 6, 4, 5, 2, 6] 3 6 = 0"
proof -
  have run: "find_all_tags [0, 1, 1, 6, 4, 5, 2, 6] [1, 1, 0, 1, 1, 1, 1, 1] =
      Inr \<lparr>per = [(0, 2)], loc = [(4, 1)], org = [(6, 0)]\<rparr>"
    by code_simp
  from find_all_tags_continuation_length [OF run] run show ?thesis by simp
qed

text \<open>
  C9. No span returned by the extractor starts at a position whose mask bit is 0.
\<close>

theorem find_all_tags_start_unmasked:
  assumes "find_all_tags T M = Inr S"
  shows "\<forall>(s, l)\<in>set (all_spans S). s < length M \<and> M ! s \<noteq> 0"
  using find_all_tags_spans [OF assms]
  by (auto simp: all_spans_def tag_values_def emitted_def)

theorem find_all_tags_start_unmasked_witness:
  "find_all_tags [0, 1, 6, 2, 6] [1, 1, 1, 0, 1] = Inr \<lparr>per = [(0, 1)], loc = [], org = []\<rparr> \<and>
   [1, 1, 1, 0, 1 :: int] ! 0 \<noteq> 0"
proof -
  have run: "find_all_tags [0, 1, 6, 2, 6] [1, 1, 1, 0, 1] =
      Inr \<lparr>per = [(0, 1)], loc = [], org = []\<rparr>"
    by code_simp
  from find_all_tags_start_unmasked [OF run] run show ?thesis
    by (simp add: all_spans_def tag_values_def)
qed

text \<open>
  C7. The lookahead never reads the mask. Two masks of the same length that differ only
  at positions strictly inside the continuation run of an extracted span (positions
  \<open>s + 1\<close> to \<open>s + l\<close> of a span \<open>(s, l)\<close>) give the same span collection.
\<close>

theorem find_all_tags_lookahead_ignores_mask:
  assumes "find_all_tags T M = Inr S"
    and "length M' = length M"
    and "\<forall>i<length T. M ! i \<noteq> M' ! i \<longrightarrow>
           (\<exists>(s, l)\<in>set (all_spans S). s < i \<and> i \<le> s + l)"
  shows "find_all_tags T M' = Inr S"
proof -
  have d: "\<forall>i. 0 \<le> i \<and> i < length T \<and> M ! i \<noteq> M' ! i \<longrightarrow>
      (\<exists>x\<in>set (all_spans S). fst x < i \<and> i \<le> fst x + snd x)"
  proof (intro allI impI)
    fix i assume "0 \<le> i \<and> i < length T \<and> M ! i \<noteq> M' ! i"
    with assms(3) obtain s l where "(s, l) \<in> set (all_spans S)" "s < i" "i \<le> s + l"
      by blast
    then show "\<exists>x\<in>set (all_spans S). fst x < i \<and> i \<le> fst x + snd x"
      by (intro bexI [of _ "(s, l)"]) simp_all
  qed
  have e: "\<forall>x\<in>set (all_spans empty_tags). fst x + snd x < 0"
    by (simp add: set_all_spans empty_tags_def)
  from assms(1) have "find_loop T M 0 empty_tags = Inr S"
    by (simp add: find_all_tags_def)
  from find_loop_mask_indep [OF this assms(2) e d] show ?thesis
    by (simp add: find_all_tags_def)
qed

theorem find_all_tags_lookahead_ignores_mask_witness:
  "find_all_tags [0, 1, 1, 6, 2, 3, 6] [1, 1, 1, 1, 1, 1, 1] =
     Inr \<lparr>per = [(0, 2)], loc = [], org = [(4, 1)]\<rparr> \<and>
   find_all_tags [0, 1, 1, 6, 2, 3, 6] [1, 0, 0, 1, 1, 0, 1] =
     Inr \<lparr>per = [(0, 2)], loc = [], org = [(4, 1)]\<rparr>"
proof -
  have run: "find_all_tags [0, 1, 1, 6, 2, 3, 6] [1, 1, 1, 1, 1, 1, 1] =
      Inr \<lparr>per = [(0, 2)], loc = [], org = [(4, 1)]\<rparr>"
    by code_simp
  have len: "length [1, 0, 0, 1, 1, 0, 1 :: int] = length [1, 1, 1, 1, 1, 1, 1 :: int]"
    by simp
  have dis: "\<forall>i<length [0, 1, 1, 6, 2, 3, 6 :: int].
      [1, 1, 1, 1, 1, 1, 1 :: int] ! i \<noteq> [1, 0, 0, 1, 1, 0, 1] ! i \<longrightarrow>
      (\<exists>(s, l)\<in>set (all_spans \<lparr>per = [(0, 2)], loc = [], org = [(4, 1)]\<rparr>). s < i \<and> i \<le> s + l)"
    by (simp add: all_spans_def tag_values_def less_Suc_eq)
  from find_all_tags_lookahead_ignores_mask [OF run len dis] run show ?thesis by simp
qed

section \<open>Properties of the scores\<close>









text \<open>
  C8, amended. Agreement at the non-masked positions alone is not enough, because the
  slices compared by the scores also cover masked positions. If the predictions and the
  gold labels agree at every non-masked position and their slices are identical over the
  extent of every span extracted from either of them, both extractions return, and at
  least one span is extracted, then precision, recall and F1 are all 1.
\<close>

theorem exact_reproduction_scores_one:
  assumes len: "length P = length G"
    and runP: "find_all_tags P M = Inr SP"
    and runG: "find_all_tags G M = Inr SG"
    and unmasked: "\<forall>i<length P. M ! i \<noteq> 0 \<longrightarrow> P ! i = G ! i"
    and extents: "\<forall>x\<in>set (all_spans SP) \<union> set (all_spans SG). slices_identical P G x"
    and some: "all_spans SP \<noteq> [] \<or> all_spans SG \<noteq> []"
  shows "precision P G M = Inr 1 \<and> recall P G M = Inr 1 \<and> compute_f1 P G M = Inr 1"
proof -
  from unmasked len have unmasked': "\<forall>i<length G. M ! i \<noteq> 0 \<longrightarrow> G ! i = P ! i" by simp
  from some have both: "all_spans SP \<noteq> [] \<and> all_spans SG \<noteq> []"
  proof
    assume "all_spans SP \<noteq> []"
    with spans_carry_over [OF runP runG len unmasked] show ?thesis by simp
  next
    assume "all_spans SG \<noteq> []"
    with spans_carry_over [OF runG runP len [symmetric] unmasked'] show ?thesis by simp
  qed
  from extents have eP: "\<forall>x\<in>set (all_spans SP). slices_identical P G x"
    and eG: "\<forall>x\<in>set (all_spans SG). slices_identical P G x" by auto
  from scored_ratio_one [OF len _ eP] both runP have p: "precision P G M = Inr 1"
    by (simp add: precision_def)
  from scored_ratio_one [OF len _ eG] both runG have r: "recall P G M = Inr 1"
    by (simp add: recall_def)
  from p r have "compute_f1 P G M = Inr 1"
    by (simp add: compute_f1_def fdiv_def)
  with p r show ?thesis by simp
qed

theorem exact_reproduction_scores_one_witness:
  "find_all_tags [0, 1, 6, 3, 4] [1, 1, 1, 0, 0] = Inr \<lparr>per = [(0, 1)], loc = [], org = []\<rparr> \<and>
   find_all_tags [0, 1, 6, -1, -1] [1, 1, 1, 0, 0] = Inr \<lparr>per = [(0, 1)], loc = [], org = []\<rparr> \<and>
   precision [0, 1, 6, 3, 4] [0, 1, 6, -1, -1] [1, 1, 1, 0, 0] = Inr 1 \<and>
   recall [0, 1, 6, 3, 4] [0, 1, 6, -1, -1] [1, 1, 1, 0, 0] = Inr 1 \<and>
   compute_f1 [0, 1, 6, 3, 4] [0, 1, 6, -1, -1] [1, 1, 1, 0, 0] = Inr 1"
proof -
  have len: "length [0, 1, 6, 3, 4 :: int] = length [0, 1, 6, -1, -1 :: int]" by simp
  have runP: "find_all_tags [0, 1, 6, 3, 4] [1, 1, 1, 0, 0] =
      Inr \<lparr>per = [(0, 1)], loc = [], org = []\<rparr>" by code_simp
  have runG: "find_all_tags [0, 1, 6, -1, -1] [1, 1, 1, 0, 0] =
      Inr \<lparr>per = [(0, 1)], loc = [], org = []\<rparr>" by code_simp
  have unmasked: "\<forall>i<length [0, 1, 6, 3, 4 :: int].
      [1, 1, 1, 0, 0 :: int] ! i \<noteq> 0 \<longrightarrow> [0, 1, 6, 3, 4 :: int] ! i = [0, 1, 6, -1, -1] ! i"
    by (simp add: less_Suc_eq)
  have extents: "\<forall>x\<in>set (all_spans \<lparr>per = [(0, 1)], loc = [], org = []\<rparr>) \<union>
        set (all_spans \<lparr>per = [(0, 1)], loc = [], org = []\<rparr>).
      slices_identical [0, 1, 6, 3, 4] [0, 1, 6, -1, -1] x"
    by (simp add: all_spans_def tag_values_def slices_identical_def slice_def)
  have some: "all_spans \<lparr>per = [(0, 1)], loc = [], org = []\<rparr> \<noteq> [] \<or>
      all_spans \<lparr>per = [(0, 1)], loc = [], org = []\<rparr> \<noteq> []"
    by (simp add: all_spans_def tag_values_def)
  from exact_reproduction_scores_one [OF len runP runG unmasked extents some] runP runG show ?thesis by simp
qed

text \<open>
  The claim as first stated fails: the predictions \<open>[0, 1, 6]\<close> and the gold labels
  \<open>[0, -1, 6]\<close> under the mask \<open>[1, 0, 1]\<close> agree at both non-masked positions and a
  span is extracted, yet the predicted span \<open>(0, 1)\<close> covers the masked position 1,
  where they differ, and the precision is 0.
\<close>

theorem agreement_off_mask_counterexample:
  "[1, 0, 1 :: int] ! 0 \<noteq> 0 \<and> [0, 1, 6 :: int] ! 0 = [0, -1, 6] ! 0 \<and>
   [1, 0, 1 :: int] ! 1 = 0 \<and>
   [1, 0, 1 :: int] ! 2 \<noteq> 0 \<and> [0, 1, 6 :: int] ! 2 = [0, -1, 6] ! 2 \<and>
   find_all_tags [0, 1, 6] [1, 0, 1] = Inr \<lparr>per = [(0, 1)], loc = [], org = []\<rparr> \<and>
   find_all_tags [0, -1, 6] [1, 0, 1] = Inr \<lparr>per = [(0, 0)], loc = [], org = []\<rparr> \<and>
   precision [0, 1, 6] [0, -1, 6] [1, 0, 1] = Inr 0 \<and>
   compute_f1 [0, 1, 6] [0, -1, 6] [1, 0, 1] = Inr 0"
  by code_simp

end
